theory Spec2Isabelle
  imports Main "HOL-Library.Char_ord" "HOL-Library.List_Lexorder"
begin

section \<open>The Redis backend of huey (huey/backends/redis\_backend.py)\<close>

text \<open>
  The module binds four components (queue, schedule, result store, event emitter) to
  keys of one Redis server through the legacy \<^verbatim>\<open>redis.Redis\<close> client. Payloads, keys
  and names are byte strings (\<open>string\<close>). The server is a record of its keyspaces,
  threaded through every operation; each method of the source becomes a function from
  the instance and the server state to its result and the new server state.
\<close>

subsection \<open>Name sanitisation\<close>

text \<open>
  \<^verbatim>\<open>def clean_name(name): return re.sub('[^a-z0-9]', '', name)\<close>

  The pattern is one negated character class: scanning from the left, every character
  outside the ranges \<^verbatim>\<open>a-z\<close> and \<^verbatim>\<open>0-9\<close> matches and is replaced by the empty string,
  every other character is copied.
\<close>

definition in_class_az09 :: "char \<Rightarrow> bool" where
  "in_class_az09 c \<longleftrightarrow> (CHR ''a'' \<le> c \<and> c \<le> CHR ''z'') \<or> (CHR ''0'' \<le> c \<and> c \<le> CHR ''9'')"

fun clean_name :: "string \<Rightarrow> string" where
  "clean_name [] = []"
| "clean_name (c # cs) = (if \<not> in_class_az09 c then clean_name cs else c # clean_name cs)"

definition lowercase_letters :: "char set" where
  "lowercase_letters = set ''abcdefghijklmnopqrstuvwxyz''"

definition decimal_digits :: "char set" where
  "decimal_digits = set ''0123456789''"

subsection \<open>The server\<close>

text \<open>
  A Redis list is a sequence with its head on the left; a missing key and an empty list
  are the same thing. A sorted set holds each member once, with a score, ordered by
  score and then by member (bytewise); a hash maps fields to values; published messages
  are kept as a log of (channel, message) pairs. The three key families of this module
  carry different prefixes, so a list, a sorted set and a hash never share a key and
  each kind has its own keyspace here.
\<close>

type_synonym zset = "(string \<times> int) list"

record redis =
  lists :: "string \<Rightarrow> string list"
  zsets :: "string \<Rightarrow> zset"
  hashes :: "string \<Rightarrow> (string \<rightharpoonup> string)"
  published :: "(string \<times> string) list"

definition empty_redis :: redis where
  "empty_redis = \<lparr> lists = (\<lambda>_. []), zsets = (\<lambda>_. []), hashes = (\<lambda>_. Map.empty), published = [] \<rparr>"

subsubsection \<open>List commands\<close>

definition lpush :: "string list \<Rightarrow> string \<Rightarrow> string list" where
  "lpush l v = v # l"

definition rpop :: "string list \<Rightarrow> string option \<times> string list" where
  "rpop l = (if l = [] then (None, l) else (Some (last l), butlast l))"

fun remove_first_n :: "nat \<Rightarrow> string \<Rightarrow> string list \<Rightarrow> string list" where
  "remove_first_n 0 v l = l"
| "remove_first_n (Suc n) v [] = []"
| "remove_first_n (Suc n) v (x # l) =
     (if x = v then remove_first_n n v l else x # remove_first_n (Suc n) v l)"

text \<open>
  \<^verbatim>\<open>LREM key count value\<close>: \<open>count > 0\<close> removes the first \<open>count\<close> matches from the
  head, \<open>count < 0\<close> the first \<open>-count\<close> from the tail, \<open>count = 0\<close> removes every
  match. The reply is the number of elements removed.
\<close>

definition lrem :: "string list \<Rightarrow> int \<Rightarrow> string \<Rightarrow> nat \<times> string list" where
  "lrem l count v =
     (let l' = (if count = 0 then filter (\<lambda>x. x \<noteq> v) l
                else if 0 < count then remove_first_n (nat count) v l
                else rev (remove_first_n (nat (- count)) v (rev l)))
      in (length l - length l', l'))"

definition llen :: "string list \<Rightarrow> nat" where
  "llen l = length l"

subsection \<open>RedisQueue\<close>

text \<open>
  \<^verbatim>\<open>self.queue_name = 'huey.redis.%s' % clean_name(name)\<close>
\<close>

record RedisQueue =
  queue_name :: string

definition RedisQueue_init :: "string \<Rightarrow> RedisQueue" where
  "RedisQueue_init name = \<lparr> queue_name = ''huey.redis.'' @ clean_name name \<rparr>"

definition RedisQueue_write :: "RedisQueue \<Rightarrow> string \<Rightarrow> redis \<Rightarrow> redis" where
  "RedisQueue_write q data s =
     s\<lparr> lists := (lists s)(queue_name q := lpush (lists s (queue_name q)) data) \<rparr>"

definition RedisQueue_read :: "RedisQueue \<Rightarrow> redis \<Rightarrow> string option \<times> redis" where
  "RedisQueue_read q s =
     (let (r, l') = rpop (lists s (queue_name q))
      in (r, s\<lparr> lists := (lists s)(queue_name q := l') \<rparr>))"

text \<open>
  \<^verbatim>\<open>return self.conn.lrem(self.queue_name, data)\<close>: the module uses the legacy client
  class \<^verbatim>\<open>redis.Redis\<close> (its \<^verbatim>\<open>zadd(key, member, score)\<close> argument order in
  \<^verbatim>\<open>RedisSchedule.add\<close> exists only there), whose method is
  \<^verbatim>\<open>lrem(self, name, value, num=0)\<close> and sends \<^verbatim>\<open>LREM name num value\<close>. The call
  passes no \<^verbatim>\<open>num\<close>, so the count sent is the default 0.
\<close>

definition lrem_default_num :: int where
  "lrem_default_num = 0"

definition RedisQueue_remove :: "RedisQueue \<Rightarrow> string \<Rightarrow> redis \<Rightarrow> nat \<times> redis" where
  "RedisQueue_remove q data s =
     (let (n, l') = lrem (lists s (queue_name q)) lrem_default_num data
      in (n, s\<lparr> lists := (lists s)(queue_name q := l') \<rparr>))"

definition RedisQueue_flush :: "RedisQueue \<Rightarrow> redis \<Rightarrow> redis" where
  "RedisQueue_flush q s = s\<lparr> lists := (lists s)(queue_name q := []) \<rparr>"

definition RedisQueue_len :: "RedisQueue \<Rightarrow> redis \<Rightarrow> nat" where
  "RedisQueue_len q s = llen (lists s (queue_name q))"

text \<open>Running a sequence of writes, and a number of reads, on one instance.\<close>

fun write_all :: "RedisQueue \<Rightarrow> string list \<Rightarrow> redis \<Rightarrow> redis" where
  "write_all q [] s = s"
| "write_all q (d # ds) s = write_all q ds (RedisQueue_write q d s)"

fun read_times :: "RedisQueue \<Rightarrow> nat \<Rightarrow> redis \<Rightarrow> string option list \<times> redis" where
  "read_times q 0 s = ([], s)"
| "read_times q (Suc n) s =
     (let (r, s') = RedisQueue_read q s; (rs, s'') = read_times q n s' in (r # rs, s''))"

subsection \<open>RedisBlockingQueue\<close>

text \<open>
  Exceptions that the client call in \<^verbatim>\<open>RedisBlockingQueue.read\<close> can meet:
  \<^verbatim>\<open>ConnectionError\<close>, \<^verbatim>\<open>TimeoutError\<close> and \<^verbatim>\<open>ResponseError\<close> of
  \<^verbatim>\<open>redis.exceptions\<close> from the client, and Python's own \<^verbatim>\<open>TypeError\<close> and
  \<^verbatim>\<open>IndexError\<close> from the subscript. In the client, \<^verbatim>\<open>TimeoutError\<close> is a class
  beside \<^verbatim>\<open>ConnectionError\<close>, not below it.
\<close>

datatype exn = ConnectionError | TimeoutError | TypeError | IndexError | ResponseError

text \<open>
  What happens while \<^verbatim>\<open>BRPOP\<close> waits on an empty list: another process pushes an
  item, the timeout of the command elapses, or the server becomes unreachable. An
  unreachable server shows in one of two ways: the connection is refused or reset
  (\<open>Unreachable\<close>), or nothing arrives any more until the socket timeout of the
  connection fires (\<open>SocketTimeout\<close>; the constructors hand \<^verbatim>\<open>**connection\<close>, and
  with it a \<^verbatim>\<open>socket_timeout\<close>, to \<^verbatim>\<open>redis.Redis\<close>).
\<close>

datatype wait = Pushed string | Elapsed | Unreachable | SocketTimeout

record RedisBlockingQueue = RedisQueue +
  read_timeout :: "nat option"

definition RedisBlockingQueue_init :: "string \<Rightarrow> nat option \<Rightarrow> RedisBlockingQueue" where
  "RedisBlockingQueue_init name timeout =
     \<lparr> queue_name = ''huey.redis.'' @ clean_name name, read_timeout = timeout \<rparr>"

text \<open>
  \<^verbatim>\<open>brpop(key, timeout)\<close> of the client: a timeout of \<^verbatim>\<open>None\<close> is sent as 0, and 0
  waits without limit. The reply is the pair \<^verbatim>\<open>[key, value]\<close>, or \<^verbatim>\<open>None\<close> when the
  timeout elapsed; a refused or reset connection raises \<^verbatim>\<open>ConnectionError\<close>, a socket
  timeout while reading the reply raises \<^verbatim>\<open>TimeoutError\<close>. The outer
  \<open>option\<close> is \<open>None\<close> when the call never returns (empty list, no limit, nothing
  pushed).
\<close>

definition waits_without_limit :: "nat option \<Rightarrow> bool" where
  "waits_without_limit timeout \<longleftrightarrow> (case timeout of None \<Rightarrow> True | Some t \<Rightarrow> t = 0)"

definition brpop ::
  "string list \<Rightarrow> string \<Rightarrow> nat option \<Rightarrow> wait \<Rightarrow> ((exn + string list option) \<times> string list) option" where
  "brpop l k timeout w =
     (case w of
        Unreachable \<Rightarrow> Some (Inl ConnectionError, l)
      | SocketTimeout \<Rightarrow> Some (Inl TimeoutError, l)
      | Pushed v \<Rightarrow>
          (if l \<noteq> [] then Some (Inr (Some [k, last l]), butlast l)
           else Some (Inr (Some [k, v]), l))
      | Elapsed \<Rightarrow>
          (if l \<noteq> [] then Some (Inr (Some [k, last l]), butlast l)
           else if waits_without_limit timeout then None
           else Some (Inr None, l)))"

text \<open>
  \<^verbatim>\<open>reply[1]\<close>: subscripting \<^verbatim>\<open>None\<close> raises \<^verbatim>\<open>TypeError\<close>, a sequence shorter than
  two raises \<^verbatim>\<open>IndexError\<close>.
\<close>

definition subscript_1 :: "string list option \<Rightarrow> exn + string" where
  "subscript_1 reply =
     (case reply of
        None \<Rightarrow> Inl TypeError
      | Some xs \<Rightarrow> (if 1 < length xs then Inr (xs ! 1) else Inl IndexError))"

text \<open>
  The body of \<^verbatim>\<open>read\<close>, given what the \<^verbatim>\<open>brpop\<close> call did (raised, or returned a
  reply):
  \<^verbatim>\<open>
  try:
      return self.conn.brpop(self.queue_name, timeout=self.read_timeout)[1]
  except (ConnectionError, TypeError, IndexError):
      return None
  \<close>
\<close>

definition caught :: "exn \<Rightarrow> bool" where
  "caught e \<longleftrightarrow> e = ConnectionError \<or> e = TypeError \<or> e = IndexError"

definition read_body :: "exn + string list option \<Rightarrow> exn + string option" where
  "read_body called =
     (case (case called of Inl e \<Rightarrow> Inl e | Inr reply \<Rightarrow> subscript_1 reply) of
        Inl e \<Rightarrow> (if caught e then Inr None else Inl e)
      | Inr v \<Rightarrow> Inr (Some v))"

definition RedisBlockingQueue_read ::
  "RedisBlockingQueue \<Rightarrow> wait \<Rightarrow> redis \<Rightarrow> ((exn + string option) \<times> redis) option" where
  "RedisBlockingQueue_read q w s =
     (case brpop (lists s (queue_name q)) (queue_name q) (read_timeout q) w of
        None \<Rightarrow> None
      | Some (called, l') \<Rightarrow>
          Some (read_body called, s\<lparr> lists := (lists s)(queue_name q := l') \<rparr>))"

subsection \<open>RedisSchedule\<close>

subsubsection \<open>Sorted-set commands\<close>

text \<open>
  Scores are the whole-second epoch values \<^verbatim>\<open>time.mktime\<close> returns (floats with no
  fractional part, exact as integers). The lower bound of a score range is a score or
  \<^verbatim>\<open>-inf\<close>; both bounds are inclusive.
\<close>

datatype bound = NegInf | Score int

fun in_score_range :: "bound \<Rightarrow> int \<Rightarrow> int \<Rightarrow> bool" where
  "in_score_range NegInf hi sc \<longleftrightarrow> sc \<le> hi"
| "in_score_range (Score lo) hi sc \<longleftrightarrow> lo \<le> sc \<and> sc \<le> hi"

fun zinsert :: "string \<Rightarrow> int \<Rightarrow> zset \<Rightarrow> zset" where
  "zinsert m sc [] = [(m, sc)]"
| "zinsert m sc ((m', sc') # z) =
     (if sc < sc' \<or> (sc = sc' \<and> m < m') then (m, sc) # (m', sc') # z
      else (m', sc') # zinsert m sc z)"

text \<open>\<^verbatim>\<open>ZADD\<close>: a new member is inserted, a member already present gets the new score.\<close>

definition zadd :: "zset \<Rightarrow> string \<Rightarrow> int \<Rightarrow> zset" where
  "zadd z m sc = zinsert m sc (filter (\<lambda>(m', sc'). m' \<noteq> m) z)"

definition zrangebyscore :: "zset \<Rightarrow> bound \<Rightarrow> int \<Rightarrow> string list" where
  "zrangebyscore z lo hi = map fst (filter (\<lambda>(m, sc). in_score_range lo hi sc) z)"

definition zremrangebyscore :: "zset \<Rightarrow> bound \<Rightarrow> int \<Rightarrow> nat \<times> zset" where
  "zremrangebyscore z lo hi =
     (length (filter (\<lambda>(m, sc). in_score_range lo hi sc) z),
      filter (\<lambda>(m, sc). \<not> in_score_range lo hi sc) z)"

subsubsection \<open>The pop script\<close>

text \<open>
  \<^verbatim>\<open>
  local key = KEYS[1]
  local unix_ts = ARGV[1]
  local res = redis.call('zrangebyscore', key, '-inf', unix_ts)
  if #res and redis.call('zremrangebyscore', key, '-inf', unix_ts) == #res then
      return res
  end
  \<close>
  The server runs a script as one command: no other client's command comes between its
  two calls, so the script is a function of the server state. In Lua every number, 0
  too, counts as true. A script that ends without \<^verbatim>\<open>return\<close> yields nil, which the
  client hands to Python as \<^verbatim>\<open>None\<close>; a returned table arrives as a list.
\<close>

definition lua_number_is_true :: "nat \<Rightarrow> bool" where
  "lua_number_is_true n = True"

definition pop_condition :: "string list \<Rightarrow> nat \<Rightarrow> bool" where
  "pop_condition res removed \<longleftrightarrow> lua_number_is_true (length res) \<and> removed = length res"

definition pop_return :: "string list \<Rightarrow> nat \<Rightarrow> string list option" where
  "pop_return res removed = (if pop_condition res removed then Some res else None)"

definition SCHEDULE_POP_LUA :: "redis \<Rightarrow> string \<Rightarrow> int \<Rightarrow> string list option \<times> redis" where
  "SCHEDULE_POP_LUA s k unix_ts =
     (let res = zrangebyscore (zsets s k) NegInf unix_ts;
          (removed, z') = zremrangebyscore (zsets s k) NegInf unix_ts
      in (pop_return res removed, s\<lparr> zsets := (zsets s)(k := z') \<rparr>))"

subsubsection \<open>The component\<close>

text \<open>
  A \<^verbatim>\<open>datetime\<close> is given by the epoch second that \<^verbatim>\<open>time.mktime\<close> assigns to its
  \<^verbatim>\<open>timetuple()\<close> and by its microsecond field, which \<^verbatim>\<open>timetuple()\<close> drops.
\<close>

record datetime =
  epoch_second :: int
  microsecond :: nat

definition convert_ts :: "datetime \<Rightarrow> int" where
  "convert_ts ts = epoch_second ts"

record RedisSchedule =
  key :: string

definition RedisSchedule_init :: "string \<Rightarrow> RedisSchedule" where
  "RedisSchedule_init name = \<lparr> key = ''huey.schedule.'' @ clean_name name \<rparr>"

definition RedisSchedule_add :: "RedisSchedule \<Rightarrow> string \<Rightarrow> datetime \<Rightarrow> redis \<Rightarrow> redis" where
  "RedisSchedule_add sch data ts s =
     s\<lparr> zsets := (zsets s)(key sch := zadd (zsets s (key sch)) data (convert_ts ts)) \<rparr>"

definition tasks_or_empty :: "string list option \<Rightarrow> string list" where
  "tasks_or_empty tasks = (case tasks of None \<Rightarrow> [] | Some t \<Rightarrow> t)"

definition RedisSchedule_read :: "RedisSchedule \<Rightarrow> datetime \<Rightarrow> redis \<Rightarrow> string list \<times> redis" where
  "RedisSchedule_read sch ts s =
     (let unix_ts = convert_ts ts;
          (tasks, s') = SCHEDULE_POP_LUA s (key sch) unix_ts
      in (tasks_or_empty tasks, s'))"

definition RedisSchedule_flush :: "RedisSchedule \<Rightarrow> redis \<Rightarrow> redis" where
  "RedisSchedule_flush sch s = s\<lparr> zsets := (zsets s)(key sch := []) \<rparr>"

text \<open>A sequence of adds, and a number of reads with one cutoff, by one caller.\<close>

fun add_all :: "RedisSchedule \<Rightarrow> (string \<times> datetime) list \<Rightarrow> redis \<Rightarrow> redis" where
  "add_all sch [] s = s"
| "add_all sch ((data, ts) # items) s = add_all sch items (RedisSchedule_add sch data ts s)"

fun read_repeatedly :: "RedisSchedule \<Rightarrow> datetime \<Rightarrow> nat \<Rightarrow> redis \<Rightarrow> string list list \<times> redis" where
  "read_repeatedly sch ts 0 s = ([], s)"
| "read_repeatedly sch ts (Suc n) s =
     (let (r, s') = RedisSchedule_read sch ts s;
          (rs, s'') = read_repeatedly sch ts n s'
      in (r # rs, s''))"

subsection \<open>RedisDataStore\<close>

text \<open>
  What \<^verbatim>\<open>peek\<close> and \<^verbatim>\<open>get\<close> return: the bytes Redis holds, \<^verbatim>\<open>None\<close> (the client's
  reply to \<^verbatim>\<open>HGET\<close> on a missing field), or the sentinel \<^verbatim>\<open>EmptyData\<close>.
\<close>

datatype pyval = PyNone | PyBytes string | EmptyData

definition hset :: "(string \<rightharpoonup> string) \<Rightarrow> string \<Rightarrow> string \<Rightarrow> (string \<rightharpoonup> string)" where
  "hset h f v = h(f \<mapsto> v)"

definition hexists :: "(string \<rightharpoonup> string) \<Rightarrow> string \<Rightarrow> bool" where
  "hexists h f \<longleftrightarrow> h f \<noteq> None"

definition hget :: "(string \<rightharpoonup> string) \<Rightarrow> string \<Rightarrow> pyval" where
  "hget h f = (case h f of None \<Rightarrow> PyNone | Some v \<Rightarrow> PyBytes v)"

definition hdel :: "(string \<rightharpoonup> string) \<Rightarrow> string \<Rightarrow> (string \<rightharpoonup> string)" where
  "hdel h f = h(f := None)"

record RedisDataStore =
  storage_name :: string

definition RedisDataStore_init :: "string \<Rightarrow> RedisDataStore" where
  "RedisDataStore_init name = \<lparr> storage_name = ''huey.results.'' @ clean_name name \<rparr>"

definition put :: "RedisDataStore \<Rightarrow> string \<Rightarrow> string \<Rightarrow> redis \<Rightarrow> redis" where
  "put d k v s =
     s\<lparr> hashes := (hashes s)(storage_name d := hset (hashes s (storage_name d)) k v) \<rparr>"

definition peek :: "RedisDataStore \<Rightarrow> string \<Rightarrow> redis \<Rightarrow> pyval" where
  "peek d k s =
     (if hexists (hashes s (storage_name d)) k then hget (hashes s (storage_name d)) k
      else EmptyData)"

definition get :: "RedisDataStore \<Rightarrow> string \<Rightarrow> redis \<Rightarrow> pyval \<times> redis" where
  "get d k s =
     (let val = peek d k s
      in if val \<noteq> EmptyData
         then (val, s\<lparr> hashes := (hashes s)(storage_name d := hdel (hashes s (storage_name d)) k) \<rparr>)
         else (val, s))"

definition RedisDataStore_flush :: "RedisDataStore \<Rightarrow> redis \<Rightarrow> redis" where
  "RedisDataStore_flush d s = s\<lparr> hashes := (hashes s)(storage_name d := Map.empty) \<rparr>"

subsection \<open>RedisEventEmitter\<close>

record RedisEventEmitter =
  channel :: string

text \<open>
  Modelled from the spec: \<^verbatim>\<open>BaseEventEmitter.__init__\<close> of huey/backends/base.py, which
  the constructor calls with the channel name, is not part of the sources at hand. The
  specification says the emitter uses the raw channel name unmodified, so the base
  constructor is taken to store its argument in \<^verbatim>\<open>self.channel\<close> as it is.
\<close>

definition BaseEventEmitter_init :: "string \<Rightarrow> RedisEventEmitter" where
  "BaseEventEmitter_init chan = \<lparr> channel = chan \<rparr>"

definition RedisEventEmitter_init :: "string \<Rightarrow> RedisEventEmitter" where
  "RedisEventEmitter_init chan = BaseEventEmitter_init chan"

definition emit :: "RedisEventEmitter \<Rightarrow> string \<Rightarrow> redis \<Rightarrow> redis" where
  "emit e message s = s\<lparr> published := published s @ [(channel e, message)] \<rparr>"

section \<open>Properties\<close>

subsection \<open>Name sanitisation\<close>

lemma lower_codes: "map of_char ''abcdefghijklmnopqrstuvwxyz'' = [97..<123::nat]"
  by code_simp

lemma digit_codes: "map of_char ''0123456789'' = [48..<58::nat]"
  by code_simp

lemma mem_lowercase_letters: "c \<in> lowercase_letters \<longleftrightarrow> 97 \<le> (of_char c :: nat) \<and> (of_char c :: nat) \<le> 122"
proof -
  have "c \<in> lowercase_letters \<longleftrightarrow> (of_char c :: nat) \<in> of_char ` set ''abcdefghijklmnopqrstuvwxyz''"
    unfolding lowercase_letters_def by (simp only: inj_image_mem_iff [OF inj_of_char])
  also have "of_char ` set ''abcdefghijklmnopqrstuvwxyz'' = set [97..<123::nat]"
    by (simp only: lower_codes [symmetric] set_map)
  finally have "c \<in> lowercase_letters \<longleftrightarrow> (of_char c :: nat) \<in> {97..<123}"
    by (simp only: set_upt)
  then show ?thesis by (simp only: atLeastLessThan_iff) arith
qed

lemma mem_decimal_digits: "c \<in> decimal_digits \<longleftrightarrow> 48 \<le> (of_char c :: nat) \<and> (of_char c :: nat) \<le> 57"
proof -
  have "c \<in> decimal_digits \<longleftrightarrow> (of_char c :: nat) \<in> of_char ` set ''0123456789''"
    unfolding decimal_digits_def by (simp only: inj_image_mem_iff [OF inj_of_char])
  also have "of_char ` set ''0123456789'' = set [48..<58::nat]"
    by (simp only: digit_codes [symmetric] set_map)
  finally have "c \<in> decimal_digits \<longleftrightarrow> (of_char c :: nat) \<in> {48..<58}"
    by (simp only: set_upt)
  then show ?thesis by (simp only: atLeastLessThan_iff) arith
qed

lemma in_class_az09_iff: "in_class_az09 c \<longleftrightarrow> c \<in> lowercase_letters \<union> decimal_digits"
  by (simp add: in_class_az09_def less_eq_char_def mem_lowercase_letters mem_decimal_digits)

lemma clean_name_filter: "clean_name s = filter in_class_az09 s"
  by (induction s) auto

text \<open>
  C5: for every input string the output of \<open>clean_name\<close> is a function of the input
  alone, consists only of lowercase ASCII letters and decimal digits, and is the input
  with exactly the other characters removed (the kept ones stay, in order).
\<close>

theorem clean_name_only_lower_and_digits:
  "set (clean_name s) \<subseteq> lowercase_letters \<union> decimal_digits
   \<and> clean_name s = filter (\<lambda>c. c \<in> lowercase_letters \<union> decimal_digits) s"
proof
  show "set (clean_name s) \<subseteq> lowercase_letters \<union> decimal_digits"
    using in_class_az09_iff by (auto simp: clean_name_filter)
  show "clean_name s = filter (\<lambda>c. c \<in> lowercase_letters \<union> decimal_digits) s"
    unfolding clean_name_filter by (rule filter_cong) (simp_all only: in_class_az09_iff)
qed

text \<open>C10: sanitising a sanitised name changes nothing.\<close>

theorem clean_name_idempotent: "clean_name (clean_name s) = clean_name s"
  by (simp add: clean_name_filter)

lemma clean_name_example: "clean_name ''My Jobs-2'' = ''yobs2''"
  by (simp add: in_class_az09_def)

subsection \<open>Queue\<close>

lemma lists_write_all:
  "lists (write_all q ws s) = (lists s)(queue_name q := rev ws @ lists s (queue_name q))"
  by (induction ws arbitrary: s) (auto simp: RedisQueue_write_def lpush_def)

lemma write_all_other_fields:
  "zsets (write_all q ws s) = zsets s \<and> hashes (write_all q ws s) = hashes s
   \<and> published (write_all q ws s) = published s"
  by (induction ws arbitrary: s) (auto simp: RedisQueue_write_def)

lemma read_times_list:
  "n \<le> length (lists s (queue_name q)) \<Longrightarrow>
   fst (read_times q n s) = map Some (take n (rev (lists s (queue_name q))))
   \<and> lists (snd (read_times q n s)) (queue_name q)
       = take (length (lists s (queue_name q)) - n) (lists s (queue_name q))"
proof (induction n arbitrary: s)
  case 0
  then show ?case by simp
next
  case (Suc n)
  from Suc.prems have "lists s (queue_name q) \<noteq> []" by auto
  then obtain xs x where l: "lists s (queue_name q) = xs @ [x]"
    by (cases "lists s (queue_name q)" rule: rev_cases) auto
  define s' where "s' = s\<lparr> lists := (lists s)(queue_name q := xs) \<rparr>"
  have rd: "RedisQueue_read q s = (Some x, s')"
    by (simp add: RedisQueue_read_def rpop_def s'_def l)
  have l': "lists s' (queue_name q) = xs" by (simp add: s'_def)
  have le: "n \<le> length (lists s' (queue_name q))" using Suc.prems by (simp add: l' l)
  note IH = Suc.IH [OF le, unfolded l']
  have "fst (read_times q (Suc n) s) = Some x # fst (read_times q n s')"
    by (simp add: rd split: prod.splits)
  moreover have "snd (read_times q (Suc n) s) = snd (read_times q n s')"
    by (simp add: rd split: prod.splits)
  ultimately show ?case using IH
    by (simp add: l)
qed

text \<open>
  C9: on a queue that holds nothing, a sequence of writes followed by as many reads
  returns the payloads in the order they were written, and leaves the queue empty.
\<close>

theorem queue_fifo:
  assumes "lists s (queue_name q) = []"
  shows "fst (read_times q (length ws) (write_all q ws s)) = map Some ws
         \<and> lists (snd (read_times q (length ws) (write_all q ws s))) (queue_name q) = []"
proof -
  have l: "lists (write_all q ws s) (queue_name q) = rev ws"
    using assms by (simp add: lists_write_all)
  have "length ws \<le> length (lists (write_all q ws s) (queue_name q))" by (simp add: l)
  from read_times_list [OF this] show ?thesis by (simp add: l)
qed

lemma length_filter_neq: "length l - length (filter (\<lambda>x. x \<noteq> v) l) = count_list l v"
proof (induction l)
  case Nil
  then show ?case by simp
next
  case (Cons a l)
  have "length (filter (\<lambda>x. x \<noteq> v) l) \<le> length l" by simp
  with Cons show ?case by (auto simp: Suc_diff_le)
qed

lemma lrem_all: "lrem l 0 v = (count_list l v, filter (\<lambda>x. x \<noteq> v) l)"
  by (simp add: lrem_def length_filter_neq)

lemma count_list_0: "count_list l v = 0 \<longleftrightarrow> v \<notin> set l"
  by (induction l) auto

lemma filter_neq_absent: "v \<notin> set l \<Longrightarrow> filter (\<lambda>x. x \<noteq> v) l = l"
  by (induction l) auto

lemma filter_neq_once:
  "count_list l v = 1 \<Longrightarrow> \<exists>ys zs. l = ys @ v # zs \<and> filter (\<lambda>x. x \<noteq> v) l = ys @ zs"
proof -
  assume c: "count_list l v = 1"
  then have "v \<in> set l" using count_list_0 [of l v] by auto
  then obtain ys zs where l: "l = ys @ v # zs" and ys: "v \<notin> set ys"
    by (auto dest: split_list_first)
  from c have "count_list zs v = 0" using ys by (simp add: l count_list_0 [THEN iffD2])
  then have zs: "v \<notin> set zs" by (simp add: count_list_0)
  have "filter (\<lambda>x. x \<noteq> v) l = ys @ zs"
    using ys zs by (simp add: l filter_neq_absent)
  with l show ?thesis by blast
qed

text \<open>
  C6, as the code has it: \<^verbatim>\<open>remove\<close> deletes every occurrence of the payload, keeps
  the other payloads in their order and returns the number deleted; when the payload is
  absent it changes nothing; when the payload occurs once, that one occurrence goes.
\<close>

theorem remove_removes_all:
  "RedisQueue_remove q data s =
     (count_list (lists s (queue_name q)) data,
      s\<lparr> lists := (lists s)(queue_name q := filter (\<lambda>x. x \<noteq> data) (lists s (queue_name q))) \<rparr>)
   \<and> (data \<notin> set (lists s (queue_name q)) \<longrightarrow> RedisQueue_remove q data s = (0, s))
   \<and> (count_list (lists s (queue_name q)) data = 1 \<longrightarrow>
        (\<exists>ys zs. lists s (queue_name q) = ys @ data # zs
                 \<and> lists (snd (RedisQueue_remove q data s)) (queue_name q) = ys @ zs))"
proof -
  let ?l = "lists s (queue_name q)"
  have a: "RedisQueue_remove q data s =
     (count_list ?l data, s\<lparr> lists := (lists s)(queue_name q := filter (\<lambda>x. x \<noteq> data) ?l) \<rparr>)"
    by (simp add: RedisQueue_remove_def lrem_default_num_def lrem_all)
  have b: "RedisQueue_remove q data s = (0, s)" if "data \<notin> set ?l"
  proof -
    from that have "filter (\<lambda>x. x \<noteq> data) ?l = ?l" by (rule filter_neq_absent)
    moreover from that have "count_list ?l data = 0" by (simp add: count_list_0)
    ultimately show ?thesis by (simp add: a)
  qed
  have c: "\<exists>ys zs. ?l = ys @ data # zs
                 \<and> lists (snd (RedisQueue_remove q data s)) (queue_name q) = ys @ zs"
    if "count_list ?l data = 1"
    using filter_neq_once [OF that] by (simp add: a)
  from a b c show ?thesis by blast
qed

theorem queue_fifo_witness:
  "fst (read_times (RedisQueue_init ''jobs'') (length [''a'', ''b'', ''c''])
         (write_all (RedisQueue_init ''jobs'') [''a'', ''b'', ''c''] empty_redis))
     = [Some ''a'', Some ''b'', Some ''c'']"
  using queue_fifo [of empty_redis "RedisQueue_init ''jobs''" "[''a'', ''b'', ''c'']"]
  by (simp add: empty_redis_def)

text \<open>
  Two occurrences of a payload: \<^verbatim>\<open>remove\<close> deletes both and reports 2.
\<close>

theorem remove_one_counterexample:
  "lists (write_all (RedisQueue_init ''jobs'') [''a'', ''b'', ''a''] empty_redis) ''huey.redis.jobs''
     = [''a'', ''b'', ''a'']
   \<and> RedisQueue_remove (RedisQueue_init ''jobs'') ''a''
        (write_all (RedisQueue_init ''jobs'') [''a'', ''b'', ''a''] empty_redis)
     = (2, write_all (RedisQueue_init ''jobs'') [''b''] empty_redis)
   \<and> lists (write_all (RedisQueue_init ''jobs'') [''b''] empty_redis) ''huey.redis.jobs'' = [''b'']"
  by (simp add: RedisQueue_remove_def RedisQueue_write_def RedisQueue_init_def lrem_def
      lrem_default_num_def lpush_def empty_redis_def in_class_az09_def)

theorem remove_removes_all_witness:
  "RedisQueue_remove (RedisQueue_init ''jobs'') ''z''
        (write_all (RedisQueue_init ''jobs'') [''a'', ''b'', ''a''] empty_redis)
     = (0, write_all (RedisQueue_init ''jobs'') [''a'', ''b'', ''a''] empty_redis)
   \<and> lists (snd (RedisQueue_remove (RedisQueue_init ''jobs'') ''b''
        (write_all (RedisQueue_init ''jobs'') [''a'', ''b'', ''a''] empty_redis))) ''huey.redis.jobs''
     = [''a'', ''a'']"
  using remove_removes_all [of "RedisQueue_init ''jobs''" "''z''"
      "write_all (RedisQueue_init ''jobs'') [''a'', ''b'', ''a''] empty_redis"]
    remove_removes_all [of "RedisQueue_init ''jobs''" "''b''"
      "write_all (RedisQueue_init ''jobs'') [''a'', ''b'', ''a''] empty_redis"]
  by (simp add: RedisQueue_write_def RedisQueue_init_def lpush_def empty_redis_def in_class_az09_def)

subsection \<open>Blocking queue\<close>

lemma read_body_cases:
  "read_body (Inr None) = Inr None"
  "read_body (Inl e) = (if caught e then Inr None else Inl e)"
  "read_body (Inr (Some xs)) = (if 1 < length xs then Inr (Some (xs ! 1)) else Inr None)"
  by (simp_all add: read_body_def subscript_1_def caught_def)

lemma read_body_not_ConnectionError: "read_body called \<noteq> Inl ConnectionError"
  by (auto simp: read_body_def subscript_1_def caught_def split: sum.splits option.splits if_splits)

text \<open>
  What the handler absorbs: whatever the blocking pop did, \<^verbatim>\<open>read\<close> never raises
  \<^verbatim>\<open>ConnectionError\<close>. A reply of \<^verbatim>\<open>None\<close> (the timeout of the command elapsed) and a
  \<^verbatim>\<open>ConnectionError\<close> both come out as \<^verbatim>\<open>None\<close>: with the connection refused or
  reset the read returns \<^verbatim>\<open>None\<close> and changes nothing, and so does a read whose
  timeout elapses on an empty queue.
\<close>

lemma blocking_read_absorbs:
  "read_body (Inr None) = Inr None
   \<and> read_body (Inl ConnectionError) = Inr None
   \<and> read_body called \<noteq> Inl ConnectionError
   \<and> RedisBlockingQueue_read q Unreachable s = Some (Inr None, s)
   \<and> (lists s (queue_name q) = [] \<and> \<not> waits_without_limit (read_timeout q)
        \<longrightarrow> RedisBlockingQueue_read q Elapsed s = Some (Inr None, s))
   \<and> RedisBlockingQueue_read q w s \<noteq> Some (Inl ConnectionError, s')"
proof -
  have a: "read_body (Inr None) = Inr None" "read_body (Inl ConnectionError) = Inr None"
    by (simp_all add: read_body_cases caught_def)
  have b: "RedisBlockingQueue_read q Unreachable s = Some (Inr None, s)"
    by (simp add: RedisBlockingQueue_read_def brpop_def a)
  have c: "RedisBlockingQueue_read q Elapsed s = Some (Inr None, s)"
    if "lists s (queue_name q) = []" "\<not> waits_without_limit (read_timeout q)"
  proof -
    from that(1) have "(lists s)(queue_name q := []) = lists s"
      by (simp add: fun_upd_idem)
    with that show ?thesis
      by (simp add: RedisBlockingQueue_read_def brpop_def a)
  qed
  have d: "RedisBlockingQueue_read q w s \<noteq> Some (Inl ConnectionError, s')"
    using read_body_not_ConnectionError
    by (auto simp: RedisBlockingQueue_read_def split: option.splits prod.splits)
  from a b c d read_body_not_ConnectionError show ?thesis by blast
qed

lemma blocking_read_absorbs_instance:
  "RedisBlockingQueue_read (RedisBlockingQueue_init ''jobs'' (Some 1)) Elapsed empty_redis
     = Some (Inr None, empty_redis)
   \<and> RedisBlockingQueue_read (RedisBlockingQueue_init ''jobs'' (Some 1)) Unreachable empty_redis
     = Some (Inr None, empty_redis)"
  using blocking_read_absorbs [of "Inr None" "RedisBlockingQueue_init ''jobs'' (Some 1)"
      empty_redis Elapsed empty_redis]
  by (simp add: RedisBlockingQueue_init_def empty_redis_def waits_without_limit_def)

text \<open>
  What the handler lets through: \<^verbatim>\<open>TimeoutError\<close> is not among the three classes of
  the \<^verbatim>\<open>except\<close> clause, so a socket timeout during the wait leaves \<^verbatim>\<open>read\<close> as an
  exception, in every state and for every queue.
\<close>

lemma blocking_read_socket_timeout:
  "read_body (Inl TimeoutError) = Inl TimeoutError"
  "RedisBlockingQueue_read q SocketTimeout s = Some (Inl TimeoutError, s)"
  by (simp_all add: RedisBlockingQueue_read_def brpop_def read_body_cases caught_def)

text \<open>
  C3 says that a failure of the store during the blocking wait comes out as the absent
  result and never as a fault, and the comment in \<^verbatim>\<open>read\<close> counts a socket timing out
  among the failures it means to turn into \<^verbatim>\<open>None\<close>. On an empty queue \<^verbatim>\<open>jobs\<close>, read
  with a command timeout of 5 seconds over a connection whose socket timeout fires
  first, the read does not return \<^verbatim>\<open>None\<close>: it raises \<^verbatim>\<open>TimeoutError\<close>. The same read
  with the connection reset returns \<^verbatim>\<open>None\<close>.
\<close>

theorem blocking_read_socket_timeout_propagates:
  "RedisBlockingQueue_read (RedisBlockingQueue_init ''jobs'' (Some 5)) SocketTimeout empty_redis
     = Some (Inl TimeoutError, empty_redis)
   \<and> RedisBlockingQueue_read (RedisBlockingQueue_init ''jobs'' (Some 5)) Unreachable empty_redis
     = Some (Inr None, empty_redis)"
  by (simp add: RedisBlockingQueue_read_def brpop_def read_body_def caught_def
      RedisBlockingQueue_init_def empty_redis_def fun_upd_idem)

text \<open>
  With no limit on the wait, an empty queue and nothing pushed, the read does not return.
\<close>

lemma blocking_read_waits:
  "lists s (queue_name q) = [] \<Longrightarrow> waits_without_limit (read_timeout q) \<Longrightarrow>
   RedisBlockingQueue_read q Elapsed s = None"
  by (simp add: RedisBlockingQueue_read_def brpop_def)

text \<open>An error the handler does not name still reaches the caller, and an item is returned.\<close>

lemma blocking_read_other_paths:
  "read_body (Inl ResponseError) = Inl ResponseError"
  "read_body (Inr (Some [k, v])) = Inr (Some v)"
  by (simp_all add: read_body_cases caught_def)

subsection \<open>Schedule\<close>

lemma set_zinsert: "set (zinsert m sc z) = insert (m, sc) (set z)"
  by (induction m sc z rule: zinsert.induct) auto

lemma distinct_zinsert:
  "m \<notin> fst ` set z \<Longrightarrow> distinct (map fst z) \<Longrightarrow> distinct (map fst (zinsert m sc z))"
proof (induction z)
  case Nil
  then show ?case by simp
next
  case (Cons p z)
  obtain m' sc' where p: "p = (m', sc')" by (cases p)
  from Cons.prems have ne: "m' \<noteq> m" and m: "m \<notin> fst ` set z"
    and m': "m' \<notin> fst ` set z" and d: "distinct (map fst z)"
    by (auto simp: p)
  have "m' \<notin> fst ` set (zinsert m sc z)"
    using ne m' by (auto simp: set_zinsert)
  with Cons.IH [OF m d] Cons.prems show ?case
    by (auto simp: p)
qed

lemma set_zadd: "set (zadd z m sc) = insert (m, sc) {p \<in> set z. fst p \<noteq> m}"
  by (auto simp: zadd_def set_zinsert)

lemma distinct_zadd: "distinct (map fst z) \<Longrightarrow> distinct (map fst (zadd z m sc))"
  unfolding zadd_def by (rule distinct_zinsert) (auto simp: distinct_map_filter)

lemma pop_condition_atomic:
  "pop_condition (zrangebyscore z lo hi) (fst (zremrangebyscore z lo hi))"
  by (simp add: pop_condition_def lua_number_is_true_def zrangebyscore_def zremrangebyscore_def)

lemma SCHEDULE_POP_LUA_eq:
  "SCHEDULE_POP_LUA s k t =
     (Some (map fst (filter (\<lambda>(m, sc). sc \<le> t) (zsets s k))),
      s\<lparr> zsets := (zsets s)(k := filter (\<lambda>(m, sc). \<not> sc \<le> t) (zsets s k)) \<rparr>)"
  using pop_condition_atomic [of "zsets s k" NegInf t]
  by (simp add: SCHEDULE_POP_LUA_def pop_return_def zrangebyscore_def zremrangebyscore_def)

lemma RedisSchedule_read_eq:
  "RedisSchedule_read sch T s =
     (map fst (filter (\<lambda>(m, sc). sc \<le> convert_ts T) (zsets s (key sch))),
      s\<lparr> zsets := (zsets s)(key sch := filter (\<lambda>(m, sc). \<not> sc \<le> convert_ts T) (zsets s (key sch))) \<rparr>)"
  by (simp add: RedisSchedule_read_def SCHEDULE_POP_LUA_eq tasks_or_empty_def Let_def)

text \<open>
  C1: for every server state and cutoff, \<^verbatim>\<open>read\<close> runs the script as one step: it
  returns the members whose score is at most the cutoff and leaves exactly the members
  with a larger score. The script's reply is decided by comparing the two counts: it
  returns the collected items only if the number deleted equals the number collected,
  and nothing otherwise; when the script returns nothing, \<^verbatim>\<open>read\<close> returns the empty
  list.
\<close>

theorem schedule_pop_atomic:
  "fst (RedisSchedule_read sch T s)
     = map fst (filter (\<lambda>(m, sc). sc \<le> convert_ts T) (zsets s (key sch)))
   \<and> zsets (snd (RedisSchedule_read sch T s)) (key sch)
     = filter (\<lambda>(m, sc). \<not> sc \<le> convert_ts T) (zsets s (key sch))
   \<and> fst (SCHEDULE_POP_LUA s (key sch) (convert_ts T))
     = pop_return (zrangebyscore (zsets s (key sch)) NegInf (convert_ts T))
         (fst (zremrangebyscore (zsets s (key sch)) NegInf (convert_ts T)))
   \<and> (pop_return res removed = Some r \<longrightarrow> removed = length res \<and> r = res)
   \<and> (removed \<noteq> length res \<longrightarrow> pop_return res removed = None)
   \<and> tasks_or_empty None = []"
proof -
  have "fst (SCHEDULE_POP_LUA s (key sch) (convert_ts T))
     = pop_return (zrangebyscore (zsets s (key sch)) NegInf (convert_ts T))
         (fst (zremrangebyscore (zsets s (key sch)) NegInf (convert_ts T)))"
    by (simp add: SCHEDULE_POP_LUA_def split: prod.splits)
  moreover have "pop_return res removed = Some r \<longrightarrow> removed = length res \<and> r = res"
    by (auto simp: pop_return_def pop_condition_def split: if_splits)
  moreover have "removed \<noteq> length res \<longrightarrow> pop_return res removed = None"
    by (simp add: pop_return_def pop_condition_def)
  ultimately show ?thesis
    by (simp add: RedisSchedule_read_eq tasks_or_empty_def)
qed

lemma add_all_distinct:
  "distinct (map fst (zsets s (key sch))) \<Longrightarrow>
   distinct (map fst (zsets (add_all sch items s) (key sch)))"
proof (induction items arbitrary: s)
  case Nil
  then show ?case by simp
next
  case (Cons it items)
  obtain data ts where it: "it = (data, ts)" by (cases it)
  have "distinct (map fst (zsets (RedisSchedule_add sch data ts s) (key sch)))"
    using Cons.prems by (simp add: RedisSchedule_add_def distinct_zadd)
  from Cons.IH [OF this] show ?case by (simp add: it)
qed

text \<open>Reading and flushing keep the members distinct as well.\<close>

lemma read_flush_distinct:
  assumes "distinct (map fst (zsets s (key sch)))"
  shows "distinct (map fst (zsets (snd (RedisSchedule_read sch T s)) (key sch)))"
    and "distinct (map fst (zsets (RedisSchedule_flush sch s) (key sch)))"
  using assms by (simp_all add: RedisSchedule_read_eq RedisSchedule_flush_def distinct_map_filter)

lemma add_all_keeps:
  "(m, sc) \<in> set (zsets s (key sch)) \<Longrightarrow> m \<notin> fst ` set items \<Longrightarrow>
   (m, sc) \<in> set (zsets (add_all sch items s) (key sch))"
proof (induction items arbitrary: s)
  case Nil
  then show ?case by simp
next
  case (Cons it items)
  obtain data ts where it: "it = (data, ts)" by (cases it)
  from Cons.prems have ne: "data \<noteq> m" and rest: "m \<notin> fst ` set items"
    by (auto simp: it)
  have "(m, sc) \<in> set (zsets (RedisSchedule_add sch data ts s) (key sch))"
    using Cons.prems(1) ne by (simp add: RedisSchedule_add_def set_zadd)
  from Cons.IH [OF this rest] show ?case by (simp add: it)
qed

lemma add_all_member:
  "(data, ts) \<in> set items \<Longrightarrow>
   \<exists>ts'. (data, ts') \<in> set items
        \<and> (data, convert_ts ts') \<in> set (zsets (add_all sch items s) (key sch))"
proof (induction items arbitrary: s ts)
  case Nil
  then show ?case by simp
next
  case (Cons it items)
  obtain d0 t0 where it: "it = (d0, t0)" by (cases it)
  let ?s = "RedisSchedule_add sch d0 t0 s"
  show ?case
  proof (cases "data \<in> fst ` set items")
    case True
    then obtain t1 where "(data, t1) \<in> set items" by auto
    from Cons.IH [OF this, of ?s] show ?thesis by (auto simp: it)
  next
    case False
    with Cons.prems have eq: "d0 = data" by (auto simp: it image_iff)
    have "(data, convert_ts t0) \<in> set (zsets ?s (key sch))"
      by (simp add: RedisSchedule_add_def set_zadd eq)
    from add_all_keeps [OF this False] show ?thesis by (auto simp: it eq)
  qed
qed

lemma read_repeatedly_nothing_due:
  "filter (\<lambda>(m, sc). sc \<le> convert_ts T) (zsets s (key sch)) = [] \<Longrightarrow>
   read_repeatedly sch T n s = (replicate n [], s)"
proof (induction n)
  case 0
  then show ?case by simp
next
  case (Suc n)
  from Suc.prems have "filter (\<lambda>(m, sc). \<not> sc \<le> convert_ts T) (zsets s (key sch)) = zsets s (key sch)"
    by (auto simp: filter_empty_conv filter_id_conv)
  then have "RedisSchedule_read sch T s = ([], s)"
    using Suc.prems by (simp add: RedisSchedule_read_eq)
  with Suc show ?case by simp
qed

lemma read_repeatedly_Suc:
  "read_repeatedly sch T (Suc n) s =
     (map fst (filter (\<lambda>(m, sc). sc \<le> convert_ts T) (zsets s (key sch))) # replicate n [],
      snd (RedisSchedule_read sch T s))"
proof -
  let ?s' = "snd (RedisSchedule_read sch T s)"
  have "filter (\<lambda>(m, sc). sc \<le> convert_ts T) (zsets ?s' (key sch)) = []"
    by (auto simp: RedisSchedule_read_eq filter_empty_conv)
  from read_repeatedly_nothing_due [OF this, of n] show ?thesis
    by (simp add: RedisSchedule_read_eq)
qed

lemma count_list_distinct: "distinct xs \<Longrightarrow> x \<in> set xs \<Longrightarrow> count_list xs x = 1"
  by (induction xs) (auto simp: count_list_0_iff)

lemma add_all_member_distinct:
  assumes "distinct (map fst items)" and "(data, ts) \<in> set items"
  shows "(data, convert_ts ts) \<in> set (zsets (add_all sch items s) (key sch))"
proof -
  from add_all_member [OF assms(2), of sch s] obtain ts'
    where ts': "(data, ts') \<in> set items"
      and mem: "(data, convert_ts ts') \<in> set (zsets (add_all sch items s) (key sch))"
    by blast
  from assms ts' have "ts = ts'" by (rule eq_key_imp_eq_value)
  with mem show ?thesis by simp
qed

lemma add_all_origin:
  "(m, sc) \<in> set (zsets (add_all sch items s) (key sch)) \<Longrightarrow>
   (\<exists>ts. (m, ts) \<in> set items \<and> sc = convert_ts ts) \<or> (m, sc) \<in> set (zsets s (key sch))"
proof (induction items arbitrary: s)
  case Nil
  then show ?case by simp
next
  case (Cons it items)
  obtain d0 t0 where it: "it = (d0, t0)" by (cases it)
  let ?s = "RedisSchedule_add sch d0 t0 s"
  from Cons.prems have "(m, sc) \<in> set (zsets (add_all sch items ?s) (key sch))"
    by (simp add: it)
  from Cons.IH [OF this]
  consider ts where "(m, ts) \<in> set items" "sc = convert_ts ts"
    | "(m, sc) \<in> set (zsets ?s (key sch))"
    by blast
  then show ?case
  proof cases
    case 1
    then show ?thesis by auto
  next
    case 2
    then have "(m, sc) = (d0, convert_ts t0) \<or> (m, sc) \<in> set (zsets s (key sch))"
      by (auto simp: RedisSchedule_add_def set_zadd)
    then show ?thesis by (auto simp: it)
  qed
qed

text \<open>
  C2, as the code has it: a sorted set keeps one entry per payload, so the items are
  taken with distinct payloads. On a schedule whose members are distinct, after adding
  such items with any due times, any positive number of \<^verbatim>\<open>read(T)\<close> calls by one caller
  returns, in aggregate, no payload twice; the payload of every added item exactly once
  when its due time (in whole epoch seconds) is at most \<open>T\<close> and never when it is
  later; nothing but added items that are due and entries that were in the schedule
  before and are due. An added item that is due later stays in the schedule, and one
  more \<^verbatim>\<open>read(T)\<close> returns the empty list.
\<close>

theorem schedule_reads_due_items_once:
  assumes wf: "distinct (map fst (zsets s (key sch)))"
    and payloads: "distinct (map fst items)"
    and n: "0 < n"
  shows "distinct (concat (fst (read_repeatedly sch T n (add_all sch items s))))
       \<and> (\<forall>(data, ts) \<in> set items.
            count_list (concat (fst (read_repeatedly sch T n (add_all sch items s)))) data
              = (if epoch_second ts \<le> epoch_second T then 1 else 0))
       \<and> (\<forall>data \<in> set (concat (fst (read_repeatedly sch T n (add_all sch items s)))).
            (\<exists>ts. (data, ts) \<in> set items \<and> epoch_second ts \<le> epoch_second T)
            \<or> (\<exists>sc. (data, sc) \<in> set (zsets s (key sch)) \<and> sc \<le> epoch_second T))
       \<and> (\<forall>(data, ts) \<in> set items. epoch_second T < epoch_second ts \<longrightarrow>
            (data, epoch_second ts)
              \<in> set (zsets (snd (read_repeatedly sch T n (add_all sch items s))) (key sch)))
       \<and> fst (RedisSchedule_read sch T (snd (read_repeatedly sch T n (add_all sch items s)))) = []"
proof -
  define s1 where "s1 = add_all sch items s"
  define z1 where "z1 = zsets s1 (key sch)"
  define out where "out = map fst (filter (\<lambda>(m, sc). sc \<le> epoch_second T) z1)"
  from n obtain n' where n': "n = Suc n'" by (cases n) auto
  have rr: "read_repeatedly sch T n s1 = (out # replicate n' [], snd (RedisSchedule_read sch T s1))"
    unfolding n' out_def z1_def using read_repeatedly_Suc [of sch T n' s1]
    by (simp add: convert_ts_def)
  have agg: "concat (fst (read_repeatedly sch T n s1)) = out"
    by (simp add: rr)
  have rest: "zsets (snd (read_repeatedly sch T n s1)) (key sch)
                = filter (\<lambda>(m, sc). \<not> sc \<le> epoch_second T) z1"
    by (simp add: rr RedisSchedule_read_eq z1_def convert_ts_def)
  have d1: "distinct (map fst z1)"
    unfolding z1_def s1_def using wf by (rule add_all_distinct)
  then have dout: "distinct out"
    unfolding out_def by (rule distinct_map_filter)
  have stored: "(data, epoch_second ts) \<in> set z1" if "(data, ts) \<in> set items" for data ts
    using add_all_member_distinct [OF payloads that, of sch s]
    by (simp add: z1_def s1_def convert_ts_def)
  have in_out: "data \<in> set out \<longleftrightarrow> epoch_second ts \<le> epoch_second T"
    if it: "(data, ts) \<in> set items" for data ts
  proof
    assume "data \<in> set out"
    then obtain sc where sc: "(data, sc) \<in> set z1" "sc \<le> epoch_second T"
      by (auto simp: out_def)
    from d1 sc(1) stored [OF it] have "sc = epoch_second ts" by (rule eq_key_imp_eq_value)
    with sc(2) show "epoch_second ts \<le> epoch_second T" by simp
  next
    assume "epoch_second ts \<le> epoch_second T"
    with stored [OF it] show "data \<in> set out" by (force simp: out_def)
  qed
  have once: "count_list out data = (if epoch_second ts \<le> epoch_second T then 1 else 0)"
    if it: "(data, ts) \<in> set items" for data ts
  proof (cases "epoch_second ts \<le> epoch_second T")
    case True
    with in_out [OF it] have "data \<in> set out" by simp
    with dout have "count_list out data = 1" by (rule count_list_distinct)
    with True show ?thesis by simp
  next
    case False
    with in_out [OF it] have "data \<notin> set out" by simp
    then have "count_list out data = 0" by (simp add: count_list_0)
    with False show ?thesis by simp
  qed
  have origin: "(\<exists>ts. (data, ts) \<in> set items \<and> epoch_second ts \<le> epoch_second T)
            \<or> (\<exists>sc. (data, sc) \<in> set (zsets s (key sch)) \<and> sc \<le> epoch_second T)"
    if "data \<in> set out" for data
  proof -
    from that obtain sc where sc: "(data, sc) \<in> set z1" "sc \<le> epoch_second T"
      by (auto simp: out_def)
    from add_all_origin [OF sc(1) [unfolded z1_def s1_def]] sc(2) show ?thesis
      by (auto simp: convert_ts_def)
  qed
  have kept: "(data, epoch_second ts) \<in> set (zsets (snd (read_repeatedly sch T n s1)) (key sch))"
    if "(data, ts) \<in> set items" "epoch_second T < epoch_second ts" for data ts
    using stored [OF that(1)] that(2) by (simp add: rest)
  have again: "fst (RedisSchedule_read sch T (snd (read_repeatedly sch T n s1))) = []"
    by (auto simp: RedisSchedule_read_eq rest filter_empty_conv convert_ts_def)
  from dout once origin kept again show ?thesis
    unfolding s1_def [symmetric] agg by blast
qed

lemmas schedule_eval =
  RedisSchedule_read_def SCHEDULE_POP_LUA_def pop_return_def pop_condition_def
  lua_number_is_true_def zrangebyscore_def zremrangebyscore_def tasks_or_empty_def
  RedisSchedule_add_def RedisSchedule_init_def zadd_def convert_ts_def empty_redis_def
  in_class_az09_def Let_def

theorem schedule_pop_atomic_witness:
  "fst (RedisSchedule_read (RedisSchedule_init ''s'') \<lparr> epoch_second = 150, microsecond = 0 \<rparr>
         (add_all (RedisSchedule_init ''s'')
            [(''a'', \<lparr> epoch_second = 100, microsecond = 0 \<rparr>),
             (''b'', \<lparr> epoch_second = 200, microsecond = 0 \<rparr>)] empty_redis)) = [''a'']
   \<and> zsets (snd (RedisSchedule_read (RedisSchedule_init ''s'') \<lparr> epoch_second = 150, microsecond = 0 \<rparr>
         (add_all (RedisSchedule_init ''s'')
            [(''a'', \<lparr> epoch_second = 100, microsecond = 0 \<rparr>),
             (''b'', \<lparr> epoch_second = 200, microsecond = 0 \<rparr>)] empty_redis))) ''huey.schedule.s''
       = [(''b'', 200)]
   \<and> pop_return [''a''] 1 = Some [''a'']
   \<and> pop_return [''a''] 0 = None"
  using schedule_pop_atomic [of "RedisSchedule_init ''s''" "\<lparr> epoch_second = 150, microsecond = 0 \<rparr>"
      "add_all (RedisSchedule_init ''s'')
            [(''a'', \<lparr> epoch_second = 100, microsecond = 0 \<rparr>),
             (''b'', \<lparr> epoch_second = 200, microsecond = 0 \<rparr>)] empty_redis" "[''a'']" 0 "[''a'']"]
  by (simp add: schedule_eval)

text \<open>
  Two items with one payload, due at 100 and at 105: the second add moves the entry, and
  reads at 110 return the payload once.
\<close>

theorem schedule_same_payload_counterexample:
  "zsets (add_all (RedisSchedule_init ''s'')
            [(''A'', \<lparr> epoch_second = 100, microsecond = 0 \<rparr>),
             (''A'', \<lparr> epoch_second = 105, microsecond = 0 \<rparr>)] empty_redis) ''huey.schedule.s''
     = [(''A'', 105)]
   \<and> concat (fst (read_repeatedly (RedisSchedule_init ''s'')
        \<lparr> epoch_second = 110, microsecond = 0 \<rparr> (Suc (Suc 0))
        (add_all (RedisSchedule_init ''s'')
            [(''A'', \<lparr> epoch_second = 100, microsecond = 0 \<rparr>),
             (''A'', \<lparr> epoch_second = 105, microsecond = 0 \<rparr>)] empty_redis))) = [''A'']"
  by (simp add: schedule_eval)

theorem schedule_reads_due_items_once_witness:
  "count_list (concat (fst (read_repeatedly (RedisSchedule_init ''s'')
        \<lparr> epoch_second = 110, microsecond = 0 \<rparr> (Suc (Suc 0))
        (add_all (RedisSchedule_init ''s'')
            [(''a'', \<lparr> epoch_second = 100, microsecond = 0 \<rparr>),
             (''b'', \<lparr> epoch_second = 105, microsecond = 0 \<rparr>),
             (''c'', \<lparr> epoch_second = 200, microsecond = 0 \<rparr>)] empty_redis)))) ''a'' = 1
   \<and> count_list (concat (fst (read_repeatedly (RedisSchedule_init ''s'')
        \<lparr> epoch_second = 110, microsecond = 0 \<rparr> (Suc (Suc 0))
        (add_all (RedisSchedule_init ''s'')
            [(''a'', \<lparr> epoch_second = 100, microsecond = 0 \<rparr>),
             (''b'', \<lparr> epoch_second = 105, microsecond = 0 \<rparr>),
             (''c'', \<lparr> epoch_second = 200, microsecond = 0 \<rparr>)] empty_redis)))) ''b'' = 1
   \<and> count_list (concat (fst (read_repeatedly (RedisSchedule_init ''s'')
        \<lparr> epoch_second = 110, microsecond = 0 \<rparr> (Suc (Suc 0))
        (add_all (RedisSchedule_init ''s'')
            [(''a'', \<lparr> epoch_second = 100, microsecond = 0 \<rparr>),
             (''b'', \<lparr> epoch_second = 105, microsecond = 0 \<rparr>),
             (''c'', \<lparr> epoch_second = 200, microsecond = 0 \<rparr>)] empty_redis)))) ''c'' = 0
   \<and> (''c'', 200) \<in> set (zsets (snd (read_repeatedly (RedisSchedule_init ''s'')
        \<lparr> epoch_second = 110, microsecond = 0 \<rparr> (Suc (Suc 0))
        (add_all (RedisSchedule_init ''s'')
            [(''a'', \<lparr> epoch_second = 100, microsecond = 0 \<rparr>),
             (''b'', \<lparr> epoch_second = 105, microsecond = 0 \<rparr>),
             (''c'', \<lparr> epoch_second = 200, microsecond = 0 \<rparr>)] empty_redis)))
        (key (RedisSchedule_init ''s'')))
   \<and> fst (RedisSchedule_read (RedisSchedule_init ''s'') \<lparr> epoch_second = 110, microsecond = 0 \<rparr>
        (snd (read_repeatedly (RedisSchedule_init ''s'')
        \<lparr> epoch_second = 110, microsecond = 0 \<rparr> (Suc (Suc 0))
        (add_all (RedisSchedule_init ''s'')
            [(''a'', \<lparr> epoch_second = 100, microsecond = 0 \<rparr>),
             (''b'', \<lparr> epoch_second = 105, microsecond = 0 \<rparr>),
             (''c'', \<lparr> epoch_second = 200, microsecond = 0 \<rparr>)] empty_redis)))) = []"
proof -
  have wf: "distinct (map fst (zsets empty_redis (key (RedisSchedule_init ''s''))))"
    by (simp add: empty_redis_def)
  have payloads: "distinct (map fst [(''a'', \<lparr> epoch_second = 100, microsecond = 0 \<rparr>),
             (''b'', \<lparr> epoch_second = 105, microsecond = 0 \<rparr>),
             (''c'', \<lparr> epoch_second = 200, microsecond = 0 \<rparr>)])"
    by simp
  have n: "0 < Suc (Suc 0)" by simp
  from schedule_reads_due_items_once [OF wf payloads n, of "\<lparr> epoch_second = 110, microsecond = 0 \<rparr>"]
  show ?thesis by simp
qed

text \<open>
  The scenario of the specification, with 10:00, 10:02, 10:05 and 10:10 as seconds of
  one day.
\<close>

lemma schedule_scenario:
  "RedisSchedule_read (RedisSchedule_init ''s'') \<lparr> epoch_second = 36120, microsecond = 0 \<rparr>
     (add_all (RedisSchedule_init ''s'')
        [(''A'', \<lparr> epoch_second = 36000, microsecond = 0 \<rparr>),
         (''B'', \<lparr> epoch_second = 36300, microsecond = 0 \<rparr>)] empty_redis)
   = ([''A''], add_all (RedisSchedule_init ''s'')
        [(''B'', \<lparr> epoch_second = 36300, microsecond = 0 \<rparr>)] empty_redis)"
  "RedisSchedule_read (RedisSchedule_init ''s'') \<lparr> epoch_second = 36600, microsecond = 0 \<rparr>
     (add_all (RedisSchedule_init ''s'')
        [(''B'', \<lparr> epoch_second = 36300, microsecond = 0 \<rparr>)] empty_redis)
   = ([''B''], empty_redis)"
  "RedisSchedule_read (RedisSchedule_init ''s'') \<lparr> epoch_second = 36600, microsecond = 0 \<rparr> empty_redis
   = ([], empty_redis)"
  by (simp_all add: schedule_eval fun_upd_idem)

text \<open>Adding a payload again moves it: the sorted set keeps one entry per member.\<close>

lemma schedule_add_twice:
  "zsets (add_all (RedisSchedule_init ''s'')
        [(''A'', \<lparr> epoch_second = 100, microsecond = 0 \<rparr>),
         (''A'', \<lparr> epoch_second = 300, microsecond = 0 \<rparr>)] empty_redis) ''huey.schedule.s''
   = [(''A'', 300)]"
  by (simp add: schedule_eval)

text \<open>The microsecond field plays no part: only whole seconds are compared.\<close>

lemma schedule_subsecond:
  "fst (RedisSchedule_read (RedisSchedule_init ''s'') \<lparr> epoch_second = 100, microsecond = 1 \<rparr>
     (add_all (RedisSchedule_init ''s'')
        [(''A'', \<lparr> epoch_second = 100, microsecond = 900000 \<rparr>)] empty_redis)) = [''A'']"
  by (simp add: schedule_eval)

subsection \<open>Data store\<close>

lemma peek_put: "peek d k (put d k v s) = PyBytes v"
  by (simp add: peek_def put_def hset_def hexists_def hget_def)

lemma get_put:
  "get d k (put d k v s)
     = (PyBytes v, s\<lparr> hashes := (hashes s)(storage_name d := (hashes s (storage_name d))(k := None)) \<rparr>)"
  by (simp add: get_def peek_def put_def hset_def hexists_def hget_def hdel_def)

lemma peek_after_get: "peek d k (snd (get d k s)) = EmptyData"
  by (simp add: get_def peek_def hexists_def hget_def hdel_def Let_def)

lemma get_absent: "hashes s (storage_name d) k = None \<Longrightarrow> get d k s = (EmptyData, s)"
  by (simp add: get_def peek_def hexists_def)

lemma get_present:
  "hashes s (storage_name d) k = Some v \<Longrightarrow>
   get d k s = (PyBytes v, s\<lparr> hashes := (hashes s)(storage_name d := (hashes s (storage_name d))(k := None)) \<rparr>)"
  by (simp add: get_def peek_def hexists_def hget_def hdel_def)

lemma get_destructive_iff: "fst (get d k s) \<noteq> EmptyData \<longleftrightarrow> snd (get d k s) \<noteq> s"
proof (cases "hashes s (storage_name d) k")
  case None
  then show ?thesis by (simp add: get_absent)
next
  case (Some v)
  have "hashes (snd (get d k s)) (storage_name d) k = None"
    by (simp add: get_present [OF Some])
  with Some have "snd (get d k s) \<noteq> s" by auto
  then show ?thesis by (simp add: get_present [OF Some])
qed

text \<open>
  C7: after \<^verbatim>\<open>put(k, v)\<close>, \<^verbatim>\<open>peek(k)\<close> returns \<open>v\<close> (it only reads, so the entry
  stays), \<^verbatim>\<open>get(k)\<close> returns \<open>v\<close> and deletes the field, and a second \<^verbatim>\<open>get(k)\<close>
  returns \<^verbatim>\<open>EmptyData\<close> and changes nothing. In any state, \<^verbatim>\<open>get\<close> changes the
  server exactly when it returns something other than \<^verbatim>\<open>EmptyData\<close>, which is exactly
  when the field is present.
\<close>

theorem put_peek_get_get:
  "peek d k (put d k v s) = PyBytes v
   \<and> fst (get d k (put d k v s)) = PyBytes v
   \<and> hashes (snd (get d k (put d k v s))) (storage_name d) k = None
   \<and> get d k (snd (get d k (put d k v s))) = (EmptyData, snd (get d k (put d k v s)))
   \<and> (fst (get d k s) \<noteq> EmptyData) = (snd (get d k s) \<noteq> s)
   \<and> (fst (get d k s) \<noteq> EmptyData) = (hashes s (storage_name d) k \<noteq> None)"
proof -
  have "hashes (snd (get d k (put d k v s))) (storage_name d) k = None"
    by (simp add: get_put)
  moreover from this have "get d k (snd (get d k (put d k v s))) = (EmptyData, snd (get d k (put d k v s)))"
    by (rule get_absent)
  moreover have "(fst (get d k s) \<noteq> EmptyData) = (hashes s (storage_name d) k \<noteq> None)"
    by (cases "hashes s (storage_name d) k") (simp_all add: get_absent get_present)
  ultimately show ?thesis
    using get_destructive_iff [of d k s] by (simp add: peek_put get_put)
qed

theorem put_peek_get_get_witness:
  "peek (RedisDataStore_init ''r'') ''k'' (put (RedisDataStore_init ''r'') ''k'' ''v1'' empty_redis) = PyBytes ''v1''
   \<and> get (RedisDataStore_init ''r'') ''k'' (put (RedisDataStore_init ''r'') ''k'' ''v1'' empty_redis)
       = (PyBytes ''v1'', empty_redis)
   \<and> get (RedisDataStore_init ''r'') ''k'' empty_redis = (EmptyData, empty_redis)"
  using put_peek_get_get [of "RedisDataStore_init ''r''" "''k''" "''v1''" empty_redis]
  by (simp add: get_put get_absent empty_redis_def fun_upd_idem)

text \<open>
  C8: a stored value, the empty one included, is returned by \<^verbatim>\<open>peek\<close> as that value
  and is different from \<^verbatim>\<open>EmptyData\<close>; \<^verbatim>\<open>peek\<close> returns \<^verbatim>\<open>EmptyData\<close> on a
  server with no entries, after a flush and after \<^verbatim>\<open>get\<close> consumed the key, and in
  general exactly when the field is absent.
\<close>

theorem empty_marker_distinct:
  "peek d k (put d k [] s) = PyBytes []
   \<and> peek d k (put d k v s) = PyBytes v
   \<and> PyBytes v \<noteq> EmptyData
   \<and> peek d k empty_redis = EmptyData
   \<and> peek d k (RedisDataStore_flush d s) = EmptyData
   \<and> peek d k (snd (get d k s)) = EmptyData
   \<and> (peek d k s = EmptyData) = (hashes s (storage_name d) k = None)"
proof -
  have "(peek d k s = EmptyData) = (hashes s (storage_name d) k = None)"
    by (cases "hashes s (storage_name d) k") (simp_all add: peek_def hexists_def hget_def)
  then show ?thesis
    by (simp add: peek_put peek_after_get)
       (simp add: peek_def hexists_def empty_redis_def RedisDataStore_flush_def)
qed

theorem empty_marker_distinct_witness:
  "peek (RedisDataStore_init ''r'') ''k'' (put (RedisDataStore_init ''r'') ''k'' [] empty_redis) = PyBytes []
   \<and> peek (RedisDataStore_init ''r'') ''k'' empty_redis = EmptyData"
  using empty_marker_distinct [of "RedisDataStore_init ''r''" "''k''" empty_redis "[]"]
  by simp

subsection \<open>Names\<close>

text \<open>
  A queue named \<^verbatim>\<open>jobs\<close> lives under \<^verbatim>\<open>huey.redis.jobs\<close>; nothing is written under
  \<^verbatim>\<open>huey.queue.jobs\<close>.
\<close>

theorem queue_kind_counterexample:
  "queue_name (RedisQueue_init ''jobs'') = ''huey.redis.jobs''
   \<and> lists (RedisQueue_write (RedisQueue_init ''jobs'') ''x'' empty_redis) ''huey.redis.jobs'' = [''x'']
   \<and> lists (RedisQueue_write (RedisQueue_init ''jobs'') ''x'' empty_redis) ''huey.queue.jobs'' = []"
  by (simp add: RedisQueue_init_def RedisQueue_write_def lpush_def empty_redis_def in_class_az09_def)

text \<open>
  C4, as the code has it: for every name, the queue (plain or blocking) works on the
  list \<^verbatim>\<open>huey.redis.<sanitised name>\<close>, the schedule on the sorted set
  \<^verbatim>\<open>huey.schedule.<sanitised name>\<close>, the data store on the hash
  \<^verbatim>\<open>huey.results.<sanitised name>\<close>, and the emitter publishes on the channel name as
  given.
\<close>

theorem physical_names:
  "lists (RedisQueue_write (RedisQueue_init name) data s)
     = (lists s)(''huey.redis.'' @ clean_name name := data # lists s (''huey.redis.'' @ clean_name name))
   \<and> queue_name (RedisBlockingQueue_init name timeout) = ''huey.redis.'' @ clean_name name
   \<and> zsets (RedisSchedule_add (RedisSchedule_init name) data ts s)
     = (zsets s)(''huey.schedule.'' @ clean_name name
          := zadd (zsets s (''huey.schedule.'' @ clean_name name)) data (convert_ts ts))
   \<and> hashes (put (RedisDataStore_init name) k v s)
     = (hashes s)(''huey.results.'' @ clean_name name
          := (hashes s (''huey.results.'' @ clean_name name))(k \<mapsto> v))
   \<and> published (emit (RedisEventEmitter_init name) message s) = published s @ [(name, message)]"
  by (simp add: RedisQueue_init_def RedisQueue_write_def lpush_def RedisBlockingQueue_init_def
      RedisSchedule_init_def RedisSchedule_add_def RedisDataStore_init_def put_def hset_def
      RedisEventEmitter_init_def BaseEventEmitter_init_def emit_def)

theorem physical_names_witness:
  "lists (RedisQueue_write (RedisQueue_init ''My Jobs-2'') ''x'' empty_redis) ''huey.redis.yobs2'' = [''x'']
   \<and> published (emit (RedisEventEmitter_init ''My Jobs-2'') ''m'' empty_redis) = [(''My Jobs-2'', ''m'')]"
  using physical_names [of "''My Jobs-2''" "''x''" empty_redis]
    physical_names [of "''My Jobs-2''" _ empty_redis _ _ _ _ "''m''"]
  by (simp add: empty_redis_def in_class_az09_def)

text \<open>The key families of the three stored components are pairwise different.\<close>

lemma key_families_disjoint:
  "queue_name (RedisQueue_init a) \<noteq> key (RedisSchedule_init b)"
  "queue_name (RedisQueue_init a) \<noteq> storage_name (RedisDataStore_init c)"
  "key (RedisSchedule_init b) \<noteq> storage_name (RedisDataStore_init c)"
  by (simp_all add: RedisQueue_init_def RedisSchedule_init_def RedisDataStore_init_def)

end
